theory Spec2Isabelle
  imports Main
begin

section \<open>Data model\<close>

text \<open>
  Words are Python strings, modelled as \<open>string\<close>. The three feedback values are the
  one-character strings \<open>"n"\<close>, \<open>"e"\<close> and \<open>"h"\<close> of the source; a feedback sequence is a
  list of them (the evaluator builds a list, the command line supplies a string), so a
  symbol is a \<open>char\<close> and nothing in the type forces it to be one of the three.
\<close>

type_synonym symbol = char

definition NOWHERE :: symbol where
  "NOWHERE = CHR ''n''"

definition ELSEWHERE :: symbol where
  "ELSEWHERE = CHR ''e''"

definition HERE :: symbol where
  "HERE = CHR ''h''"

text \<open>The exceptions the modelled code can raise.\<close>

datatype error = IndexError | AssertionError | ZeroDivisionError | ValueError

section \<open>cut\<close>

text \<open>\<open>s[:i] + s[i+1:]\<close>; slicing never raises, also when \<open>i\<close> is out of range.\<close>

definition cut :: "'a list \<Rightarrow> nat \<Rightarrow> 'a list" where
  "cut s i = take i s @ drop (Suc i) s"

section \<open>give_feedback\<close>

text \<open>
  The \<open>for\<close> loop of \<open>give_feedback\<close> over \<open>enumerate(zip(word, guess))\<close>, entered at
  index \<open>i\<close> with the list \<open>out\<close> built so far. The loop ends when the shorter of the
  two strings is exhausted. \<open>gl in word\<close> looks at the whole current word.
\<close>

function give_feedback_from :: "nat \<Rightarrow> symbol list \<Rightarrow> string \<Rightarrow> string \<Rightarrow> symbol list" where
  "give_feedback_from i out word guess =
     (if i < min (length word) (length guess) then
        (if guess ! i = word ! i then
           (let rest = give_feedback_from 0 [] (cut word i) (cut guess i)
            in take i rest @ [HERE] @ drop i rest)
         else if guess ! i \<in> set word then
           give_feedback_from (Suc i) (out @ [ELSEWHERE]) word guess
         else
           give_feedback_from (Suc i) (out @ [NOWHERE]) word guess)
      else out)"
  by pat_completeness auto
termination
  by (relation "measures [\<lambda>(i, out, word, guess). length word,
                          \<lambda>(i, out, word, guess). min (length word) (length guess) - i]")
     (auto simp: cut_def)

definition give_feedback :: "string \<Rightarrow> string \<Rightarrow> symbol list" where
  "give_feedback word guess = give_feedback_from 0 [] word guess"

section \<open>prune\<close>

text \<open>
  \<open>[w for w in words if w[i] == letter]\<close>: the comprehension indexes every word, so it
  raises \<open>IndexError\<close> as soon as one word is too short.
\<close>

definition consistent :: "nat \<Rightarrow> char \<Rightarrow> string list \<Rightarrow> error + string list" where
  "consistent i letter words =
     (if \<forall>w \<in> set words. i < length w
      then Inr (filter (\<lambda>w. w ! i = letter) words)
      else Inl IndexError)"

text \<open>
  \<open>[w for w in words if letter in w and w[i] != letter]\<close>: \<open>and\<close> short-circuits, so only
  a word that contains the letter is indexed.
\<close>

definition elsewhere_filter :: "nat \<Rightarrow> char \<Rightarrow> string list \<Rightarrow> error + string list" where
  "elsewhere_filter i letter words =
     (if \<forall>w \<in> set words. letter \<in> set w \<longrightarrow> i < length w
      then Inr (filter (\<lambda>w. letter \<in> set w \<and> w ! i \<noteq> letter) words)
      else Inl IndexError)"

text \<open>
  The second loop of \<open>prune\<close>, over the remaining items of
  \<open>enumerate(zip(guess, feedback))\<close>, with the current value of \<open>words\<close>.
\<close>

fun prune_nohere :: "(nat \<times> char \<times> symbol) list \<Rightarrow> string list \<Rightarrow> error + string list" where
  "prune_nohere [] words = Inr words"
| "prune_nohere ((i, letter, result) # rest) words =
     (if result = HERE then Inl AssertionError
      else
        (let words1 = (if result = NOWHERE then filter (\<lambda>w. letter \<notin> set w) words else words)
         in if result = ELSEWHERE then
              (case elsewhere_filter i letter words1 of
                 Inl e \<Rightarrow> Inl e
               | Inr words2 \<Rightarrow> prune_nohere rest words2)
            else prune_nohere rest words1))"

text \<open>
  The first loop of \<open>prune\<close>, entered at index \<open>i\<close>: it returns from inside the loop at
  the first \<open>HERE\<close>, and falls through to the second loop when there is none.
\<close>

function prune_from :: "nat \<Rightarrow> string list \<Rightarrow> string \<Rightarrow> symbol list \<Rightarrow> error + string list" where
  "prune_from i words guess feedback =
     (if i < min (length guess) (length feedback) then
        (if feedback ! i = HERE then
           (case consistent i (guess ! i) words of
              Inl e \<Rightarrow> Inl e
            | Inr cs \<Rightarrow>
                (case prune_from 0 (map (\<lambda>w. cut w i) cs) (cut guess i) (cut feedback i) of
                   Inl e \<Rightarrow> Inl e
                 | Inr pruned \<Rightarrow> Inr (map (\<lambda>w. take i w @ [guess ! i] @ drop i w) pruned)))
         else prune_from (Suc i) words guess feedback)
      else prune_nohere (enumerate 0 (zip guess feedback)) words)"
  by pat_completeness auto
termination
  by (relation "measures [\<lambda>(i, words, guess, feedback). length guess,
                          \<lambda>(i, words, guess, feedback). min (length guess) (length feedback) - i]")
     (auto simp: cut_def)

definition prune :: "string list \<Rightarrow> string \<Rightarrow> symbol list \<Rightarrow> error + string list" where
  "prune words guess feedback = prune_from 0 words guess feedback"

section \<open>guess_greedy\<close>

text \<open>
  The inner loop of \<open>guess_greedy\<close> over the words still to visit, with the running sum
  \<open>s\<close>; \<open>break\<close> leaves the loop with the sum reached so far. An exception of \<open>prune\<close>
  propagates.
\<close>

fun score_loop :: "string list \<Rightarrow> string \<Rightarrow> nat \<Rightarrow> nat \<Rightarrow> string list \<Rightarrow> error + nat" where
  "score_loop words guess minval s [] = Inr s"
| "score_loop words guess minval s (w # ws) =
     (case prune words guess (give_feedback w guess) of
        Inl e \<Rightarrow> Inl e
      | Inr pruned \<Rightarrow>
          (let s' = s + length pruned
           in if s' > minval then Inr s' else score_loop words guess minval s' ws))"

text \<open>The outer loop over the guesses, with the running \<open>minval\<close> and \<open>argmin\<close>.\<close>

fun guess_loop ::
  "string list \<Rightarrow> nat \<Rightarrow> string option \<Rightarrow> string list \<Rightarrow> error + (nat \<times> string option)" where
  "guess_loop words minval argmin [] = Inr (minval, argmin)"
| "guess_loop words minval argmin (guess # guesses) =
     (case score_loop words guess minval 0 words of
        Inl e \<Rightarrow> Inl e
      | Inr s \<Rightarrow>
          (if s < minval then guess_loop words s (Some guess) guesses
           else guess_loop words minval argmin guesses))"

text \<open>
  \<open>guess_greedy\<close> returns \<open>argmin\<close> (\<open>None\<close> when no guess was recorded) and a message
  that prints \<open>minval / N\<close> with one decimal. The message is a function of \<open>minval\<close> and
  \<open>N\<close>; the model returns \<open>minval\<close> in its place. The division raises
  \<open>ZeroDivisionError\<close> when \<open>words\<close> is empty.
\<close>

definition guess_greedy :: "string list \<Rightarrow> string list \<Rightarrow> error + (string option \<times> nat)" where
  "guess_greedy words guesses =
     (let N = length words; minval = N * N
      in case guess_loop words minval None guesses of
           Inl e \<Rightarrow> Inl e
         | Inr (minval', argmin) \<Rightarrow>
             if N = 0 then Inl ZeroDivisionError else Inr (argmin, minval'))"

subsection \<open>The selector without the early exit\<close>

text \<open>
  The variant the specification compares with: the same two loops, but the inner one always
  sums over every word (\<open>score(g) = \<Sum> |prune(words, g, feedback(w, g))|\<close>).
\<close>

fun score_naive :: "string list \<Rightarrow> string \<Rightarrow> nat \<Rightarrow> string list \<Rightarrow> error + nat" where
  "score_naive words guess s [] = Inr s"
| "score_naive words guess s (w # ws) =
     (case prune words guess (give_feedback w guess) of
        Inl e \<Rightarrow> Inl e
      | Inr pruned \<Rightarrow> score_naive words guess (s + length pruned) ws)"

fun guess_loop_naive ::
  "string list \<Rightarrow> nat \<Rightarrow> string option \<Rightarrow> string list \<Rightarrow> error + (nat \<times> string option)" where
  "guess_loop_naive words minval argmin [] = Inr (minval, argmin)"
| "guess_loop_naive words minval argmin (guess # guesses) =
     (case score_naive words guess 0 words of
        Inl e \<Rightarrow> Inl e
      | Inr s \<Rightarrow>
          (if s < minval then guess_loop_naive words s (Some guess) guesses
           else guess_loop_naive words minval argmin guesses))"

definition guess_greedy_naive :: "string list \<Rightarrow> string list \<Rightarrow> error + (string option \<times> nat)" where
  "guess_greedy_naive words guesses =
     (let N = length words; minval = N * N
      in case guess_loop_naive words minval None guesses of
           Inl e \<Rightarrow> Inl e
         | Inr (minval', argmin) \<Rightarrow>
             if N = 0 then Inl ZeroDivisionError else Inr (argmin, minval'))"

section \<open>The initial guess of loop\<close>

text \<open>
  \<open>Counter("".join("".join(set(w)) for w in words))\<close>: every word contributes each of its
  distinct letters once (\<open>remdups\<close>; the order inside a Python set does not affect a count),
  and a \<open>Counter\<close> answers 0 for a letter it has not seen.
\<close>

definition letter_counts :: "string list \<Rightarrow> char \<Rightarrow> nat" where
  "letter_counts words l = count_list (concat (map remdups words)) l"

text \<open>\<open>sum(letter_counts[l] for l in set(word))\<close>.\<close>

definition coverage :: "string list \<Rightarrow> string \<Rightarrow> nat" where
  "coverage words word = sum_list (map (letter_counts words) (remdups word))"

text \<open>
  Python's \<open>max(words, key=coverage)\<close>: the running best is replaced only by an item whose
  key is strictly greater, and an empty argument raises \<open>ValueError\<close>.
\<close>

fun max_loop :: "('a \<Rightarrow> nat) \<Rightarrow> 'a \<Rightarrow> 'a list \<Rightarrow> 'a" where
  "max_loop key best [] = best"
| "max_loop key best (x # xs) = max_loop key (if key x > key best then x else best) xs"

definition max_key :: "('a \<Rightarrow> nat) \<Rightarrow> 'a list \<Rightarrow> error + 'a" where
  "max_key key xs = (case xs of [] \<Rightarrow> Inl ValueError | x # rest \<Rightarrow> Inr (max_loop key x rest))"

definition initial_guess :: "string list \<Rightarrow> error + string" where
  "initial_guess words = max_key (coverage words) words"

section \<open>Auxiliary notions for the proofs\<close>

text \<open>
  The letters of the word that no exact match consumes: those at positions where word and
  guess differ, and those beyond the end of the guess.
\<close>

definition resid :: "string \<Rightarrow> string \<Rightarrow> string" where
  "resid w g = map fst (filter (\<lambda>(a, b). a \<noteq> b) (zip w g)) @ drop (length g) w"

text \<open>The symbol for one aligned pair, given the set of unconsumed letters.\<close>

definition classify :: "char set \<Rightarrow> char \<times> char \<Rightarrow> symbol" where
  "classify R = (\<lambda>(a, b). if b = a then HERE else if b \<in> R then ELSEWHERE else NOWHERE)"

text \<open>
  What the second loop of \<open>prune\<close> asks of a single word, item by item.
\<close>

fun nohere_ok :: "(nat \<times> char \<times> symbol) list \<Rightarrow> string \<Rightarrow> bool" where
  "nohere_ok [] w = True"
| "nohere_ok ((i, letter, result) # rest) w =
     ((result = NOWHERE \<longrightarrow> letter \<notin> set w) \<and>
      (result = ELSEWHERE \<longrightarrow> letter \<in> set w \<and> w ! i \<noteq> letter) \<and>
      nohere_ok rest w)"

text \<open>
  The score of a guess as the module docstring states it: the sum, over the words \<open>w\<close>, of
  the number of words that give the same feedback against the guess as \<open>w\<close> does.
\<close>

definition score :: "string list \<Rightarrow> string \<Rightarrow> nat" where
  "score words g =
     sum_list (map (\<lambda>w. length (filter (\<lambda>w'. give_feedback w' g = give_feedback w g) words)) words)"

text \<open>
  The coverage of the specification: for a letter, the number of words of the collection
  that contain it; for a word, the sum of that number over its distinct letters.
\<close>

definition words_containing :: "string list \<Rightarrow> char \<Rightarrow> nat" where
  "words_containing words l = length (filter (\<lambda>w. l \<in> set w) words)"

definition coverage_spec :: "string list \<Rightarrow> string \<Rightarrow> nat" where
  "coverage_spec words word = (\<Sum>l \<in> set word. words_containing words l)"

section \<open>Properties of cut and of the evaluator\<close>

declare give_feedback_from.simps [simp del]
declare prune_from.simps [simp del]

lemma length_cut: "i < length s \<Longrightarrow> length (cut s i) = length s - 1"
  by (simp add: cut_def)

lemma map_cut: "map f (cut xs j) = cut (map f xs) j"
  by (simp add: cut_def take_map drop_map)

lemma zip_cut: "zip (cut w j) (cut g j) = cut (zip w g) j"
  by (cases "j < length w"; cases "j < length g")
     (simp_all add: cut_def take_zip drop_zip zip_append1 zip_append2 min_def)

lemma insert_cut:
  "j < length xs \<Longrightarrow> xs ! j = a \<Longrightarrow> take j (cut xs j) @ [a] @ drop j (cut xs j) = xs"
  using id_take_nth_drop[of j xs] by (simp add: cut_def)

lemma gff_done:
  "\<not> i < min (length w) (length g) \<Longrightarrow> give_feedback_from i out w g = out"
  by (subst give_feedback_from.simps) (simp del: min_less_iff_conj)

lemma gff_here:
  "i < min (length w) (length g) \<Longrightarrow> g ! i = w ! i \<Longrightarrow>
   give_feedback_from i out w g =
     (let rest = give_feedback (cut w i) (cut g i) in take i rest @ [HERE] @ drop i rest)"
  by (subst give_feedback_from.simps) (simp del: min_less_iff_conj add: give_feedback_def)

lemma gff_else:
  "i < min (length w) (length g) \<Longrightarrow> g ! i \<noteq> w ! i \<Longrightarrow>
   give_feedback_from i out w g =
     give_feedback_from (Suc i) (out @ [if g ! i \<in> set w then ELSEWHERE else NOWHERE]) w g"
  by (subst give_feedback_from.simps) (simp del: min_less_iff_conj)

lemma gff_nomatch:
  "\<forall>j. i \<le> j \<and> j < min (length w) (length g) \<longrightarrow> g ! j \<noteq> w ! j \<Longrightarrow>
   give_feedback_from i out w g =
     out @ map (\<lambda>k. if g ! k \<in> set w then ELSEWHERE else NOWHERE) [i..<min (length w) (length g)]"
proof (induction i out w g rule: give_feedback_from.induct)
  case (1 i out word guess)
  show ?case
  proof (cases "i < min (length word) (length guess)")
    case False
    then have "[i..<min (length word) (length guess)] = []" by (simp del: min_less_iff_conj)
    then show ?thesis using gff_done[OF False] by (simp del: min_less_iff_conj)
  next
    case True
    with 1(4) have ne: "guess ! i \<noteq> word ! i" by auto
    have rest: "\<forall>j. Suc i \<le> j \<and> j < min (length word) (length guess) \<longrightarrow> guess ! j \<noteq> word ! j"
      using 1(4) by auto
    have step: "give_feedback_from i out word guess =
        (if guess ! i \<in> set word then give_feedback_from (Suc i) (out @ [ELSEWHERE]) word guess
         else give_feedback_from (Suc i) (out @ [NOWHERE]) word guess)"
      using gff_else[OF True ne] by simp
    have upt: "[i..<min (length word) (length guess)] = i # [Suc i..<min (length word) (length guess)]"
      using True by (simp add: upt_conv_Cons)
    show ?thesis
    proof (cases "guess ! i \<in> set word")
      case True
      show ?thesis unfolding step upt using True 1(2)[OF \<open>i < min (length word) (length guess)\<close> ne True rest] by simp
    next
      case False
      show ?thesis unfolding step upt using False 1(3)[OF \<open>i < min (length word) (length guess)\<close> ne False rest] by simp
    qed
  qed
qed

lemma gff_match:
  "j < min (length w) (length g) \<Longrightarrow> g ! j = w ! j \<Longrightarrow> i \<le> j \<Longrightarrow>
   \<forall>k. i \<le> k \<and> k < j \<longrightarrow> g ! k \<noteq> w ! k \<Longrightarrow>
   give_feedback_from i out w g =
     (let rest = give_feedback (cut w j) (cut g j) in take j rest @ [HERE] @ drop j rest)"
proof (induction i out w g rule: give_feedback_from.induct)
  case (1 i out word guess)
  have lt: "i < min (length word) (length guess)" using 1(4,6) by simp
  show ?case
  proof (cases "i = j")
    case True
    then show ?thesis using gff_here[OF lt] 1(5) by simp
  next
    case False
    then have ij: "Suc i \<le> j" using 1(6) by simp
    have ne: "guess ! i \<noteq> word ! i" using 1(7) 1(6) False by auto
    have rest: "\<forall>k. Suc i \<le> k \<and> k < j \<longrightarrow> guess ! k \<noteq> word ! k" using 1(7) by auto
    have step: "give_feedback_from i out word guess =
        (if guess ! i \<in> set word then give_feedback_from (Suc i) (out @ [ELSEWHERE]) word guess
         else give_feedback_from (Suc i) (out @ [NOWHERE]) word guess)"
      using gff_else[OF lt ne] by simp
    show ?thesis
    proof (cases "guess ! i \<in> set word")
      case True
      show ?thesis unfolding step using True 1(2)[OF lt ne True 1(4) 1(5) ij rest] by simp
    next
      case False
      show ?thesis unfolding step using False 1(3)[OF lt ne False 1(4) 1(5) ij rest] by simp
    qed
  qed
qed

lemma resid_cut:
  assumes "j < length w" "j < length g" "g ! j = w ! j"
  shows "resid (cut w j) (cut g j) = resid w g"
proof -
  have z: "zip w g = take j (zip w g) @ (w ! j, g ! j) # drop (Suc j) (zip w g)"
    using assms by (metis id_take_nth_drop length_zip min_less_iff_conj nth_zip)
  have "filter (\<lambda>(a, b). a \<noteq> b) (zip w g) = filter (\<lambda>(a, b). a \<noteq> b) (cut (zip w g) j)"
    by (subst z) (simp add: cut_def assms)
  moreover have "drop (length (cut g j)) (cut w j) = drop (length g) w"
  proof -
    have "Suc (length g - Suc 0) = length g" using assms by simp
    then show ?thesis using assms by (simp add: cut_def min_def)
  qed
  ultimately show ?thesis by (simp add: resid_def zip_cut)
qed

lemma resid_nomatch:
  assumes "\<forall>j. j < min (length w) (length g) \<longrightarrow> g ! j \<noteq> w ! j"
  shows "resid w g = w"
proof -
  have "filter (\<lambda>(a, b). a \<noteq> b) (zip w g) = zip w g"
    using assms by (auto simp: filter_id_conv in_set_zip)
  then have "resid w g = map fst (zip w g) @ drop (length g) w" by (simp add: resid_def)
  also have "map fst (zip w g) = take (length g) w"
    by (simp add: map_fst_zip_take min_def)
  finally show ?thesis by simp
qed


lemma give_feedback_nomatch:
  assumes nm: "\<forall>j. j < min (length w) (length g) \<longrightarrow> g ! j \<noteq> w ! j"
  shows "give_feedback w g = map (classify (set (resid w g))) (zip w g)"
proof -
  let ?n = "min (length w) (length g)"
  from nm have nm0: "\<forall>j. 0 \<le> j \<and> j < ?n \<longrightarrow> g ! j \<noteq> w ! j" by simp
  have "give_feedback w g = map (\<lambda>k. if g ! k \<in> set w then ELSEWHERE else NOWHERE) [0..<?n]"
    unfolding give_feedback_def using gff_nomatch[OF nm0, of "[]"] by simp
  also have "\<dots> = map (classify (set (resid w g))) (zip w g)"
  proof (rule nth_equalityI)
    show "length (map (\<lambda>k. if g ! k \<in> set w then ELSEWHERE else NOWHERE) [0..<?n]) =
          length (map (classify (set (resid w g))) (zip w g))" by simp
  next
    fix k assume "k < length (map (\<lambda>k. if g ! k \<in> set w then ELSEWHERE else NOWHERE) [0..<?n])"
    then have k: "k < length w" "k < length g" by simp_all
    with nm have "g ! k \<noteq> w ! k" by simp
    then show "map (\<lambda>k. if g ! k \<in> set w then ELSEWHERE else NOWHERE) [0..<?n] ! k =
          map (classify (set (resid w g))) (zip w g) ! k"
      using k by (simp add: resid_nomatch[OF nm] classify_def)
  qed
  finally show ?thesis .
qed

lemma give_feedback_match_step:
  assumes j: "j < min (length w) (length g)" "g ! j = w ! j"
    and first: "\<forall>k. k < j \<longrightarrow> g ! k \<noteq> w ! k"
    and ih: "give_feedback (cut w j) (cut g j) =
             map (classify (set (resid (cut w j) (cut g j)))) (zip (cut w j) (cut g j))"
  shows "give_feedback w g = map (classify (set (resid w g))) (zip w g)"
proof -
  let ?f = "classify (set (resid w g))"
  let ?ys = "map ?f (zip w g)"
  from first have first0: "\<forall>k. 0 \<le> k \<and> k < j \<longrightarrow> g ! k \<noteq> w ! k" by simp
  have jl: "j < length w" "j < length g" using j(1) by simp_all
  have rc: "resid (cut w j) (cut g j) = resid w g" by (rule resid_cut[OF jl j(2)])
  have rest: "give_feedback (cut w j) (cut g j) = cut ?ys j"
    unfolding ih rc zip_cut map_cut ..
  have yj: "?ys ! j = HERE" using jl j(2) by (simp add: classify_def)
  have ly: "j < length ?ys" using jl by simp
  have "give_feedback w g = take j (cut ?ys j) @ [HERE] @ drop j (cut ?ys j)"
    unfolding give_feedback_def[of w g] gff_match[OF j(1) j(2) le0 first0] Let_def rest ..
  also have "\<dots> = ?ys" by (rule insert_cut[OF ly yj])
  finally show ?thesis .
qed

lemma give_feedback_char:
  "give_feedback w g = map (classify (set (resid w g))) (zip w g)"
proof (induction "length w" arbitrary: w g rule: less_induct)
  case less
  let ?n = "min (length w) (length g)"
  show ?case
  proof (cases "\<exists>j. j < ?n \<and> g ! j = w ! j")
    case False
    then have nm: "\<forall>j. j < ?n \<longrightarrow> g ! j \<noteq> w ! j" by blast
    then show ?thesis by (rule give_feedback_nomatch)
  next
    case True
    then obtain j where j: "j < ?n \<and> g ! j = w ! j" and m: "\<forall>k<j. \<not> (k < ?n \<and> g ! k = w ! k)"
      using exists_least_iff[of "\<lambda>j. j < ?n \<and> g ! j = w ! j"] by blast
    have first: "\<forall>k. k < j \<longrightarrow> g ! k \<noteq> w ! k"
    proof (intro allI impI)
      fix k assume "k < j"
      with m j have "\<not> (k < ?n \<and> g ! k = w ! k)" "k < ?n" by auto
      then show "g ! k \<noteq> w ! k" by blast
    qed
    have lw: "length (cut w j) < length w" using j by (auto simp: length_cut)
    from j have j1: "j < ?n" and j2: "g ! j = w ! j" by simp_all
    show ?thesis
      by (rule give_feedback_match_step[OF j1 j2 first less[OF lw]])
  qed
qed

lemma symbols_distinct:
  "HERE \<noteq> ELSEWHERE" "HERE \<noteq> NOWHERE" "ELSEWHERE \<noteq> NOWHERE"
  "ELSEWHERE \<noteq> HERE" "NOWHERE \<noteq> HERE" "NOWHERE \<noteq> ELSEWHERE"
  by (simp_all add: HERE_def ELSEWHERE_def NOWHERE_def)

lemma length_give_feedback: "length (give_feedback w g) = min (length w) (length g)"
  by (simp add: give_feedback_char)

lemma set_give_feedback: "set (give_feedback w g) \<subseteq> {HERE, ELSEWHERE, NOWHERE}"
  by (auto simp: give_feedback_char classify_def)

lemma give_feedback_nth:
  "i < length w \<Longrightarrow> i < length g \<Longrightarrow>
   give_feedback w g ! i = classify (set (resid w g)) (w ! i, g ! i)"
  by (simp add: give_feedback_char)

lemma give_feedback_here_iff:
  "i < length w \<Longrightarrow> i < length g \<Longrightarrow> give_feedback w g ! i = HERE \<longleftrightarrow> g ! i = w ! i"
  by (simp add: give_feedback_nth classify_def symbols_distinct)

lemma give_feedback_cut:
  assumes "j < length w" "j < length g" "g ! j = w ! j"
  shows "give_feedback (cut w j) (cut g j) = cut (give_feedback w g) j"
  unfolding give_feedback_char resid_cut[OF assms] zip_cut map_cut ..

lemma list_eq_cutI:
  assumes "length xs = length ys" "i < length xs" "xs ! i = ys ! i" "cut xs i = cut ys i"
  shows "xs = ys"
proof -
  have "xs = take i (cut xs i) @ [xs ! i] @ drop i (cut xs i)"
    using insert_cut[OF assms(2) refl] by simp
  also have "\<dots> = take i (cut ys i) @ [ys ! i] @ drop i (cut ys i)"
    using assms(3,4) by simp
  also have "\<dots> = ys" using insert_cut[of i ys "ys ! i"] assms(1,2) by simp
  finally show ?thesis .
qed

lemma here_equiv:
  assumes i: "i < length g" and lw: "length w = length g" and lf: "length f = length g"
    and fi: "f ! i = HERE"
  shows "(w ! i = g ! i \<and> give_feedback (cut w i) (cut g i) = cut f i) \<longleftrightarrow> give_feedback w g = f"
proof
  assume a: "w ! i = g ! i \<and> give_feedback (cut w i) (cut g i) = cut f i"
  have iw: "i < length w" using i lw by simp
  have c: "cut (give_feedback w g) i = cut f i"
    using give_feedback_cut[OF iw i] a by simp
  have h: "give_feedback w g ! i = f ! i"
    using give_feedback_here_iff[OF iw i] a fi by simp
  show "give_feedback w g = f"
    by (rule list_eq_cutI[OF _ _ h c]) (simp_all add: length_give_feedback lw lf i)
next
  assume b: "give_feedback w g = f"
  have iw: "i < length w" using i lw by simp
  have m: "g ! i = w ! i" using give_feedback_here_iff[OF iw i] b fi by simp
  show "w ! i = g ! i \<and> give_feedback (cut w i) (cut g i) = cut f i"
    using give_feedback_cut[OF iw i m] m b by simp
qed

lemma restore_plumbing:
  assumes "\<forall>w \<in> set S. i < length w"
  shows "map (\<lambda>w. take i w @ [l] @ drop i w) (filter Q (map (\<lambda>w. cut w i) (filter (\<lambda>w. w ! i = l) S)))
         = filter (\<lambda>w. w ! i = l \<and> Q (cut w i)) S"
  using assms
proof (induction S)
  case Nil
  then show ?case by simp
next
  case (Cons a S)
  then have ia: "i < length a" by simp
  have r: "a ! i = l \<Longrightarrow> take i (cut a i) @ [l] @ drop i (cut a i) = a"
    using insert_cut[OF ia] by simp
  show ?case using Cons r by simp
qed

lemma zip_take_guess: "zip w (take (length w) g) = zip w g"
proof -
  have "zip w (take (length w) g) = zip (take (length w) w) (take (length w) g)" by simp
  also have "\<dots> = take (length w) (zip w g)" by (simp only: take_zip)
  also have "\<dots> = zip w g" by simp
  finally show ?thesis .
qed

lemma resid_take_guess: "resid w (take (length w) g) = resid w g"
  by (cases "length g \<le> length w") (simp_all add: resid_def zip_take_guess min_def)

lemma give_feedback_take_guess:
  "give_feedback w (take (length w) g) = give_feedback w g"
  by (simp only: give_feedback_char zip_take_guess resid_take_guess)

lemma give_feedback_from_total: "give_feedback_from_dom x"
proof -
  have "All give_feedback_from_dom"
    by (relation "measures [\<lambda>(i, out, word, guess). length word,
                            \<lambda>(i, out, word, guess). min (length word) (length guess) - i]")
       (auto simp: cut_def)
  then show ?thesis by (cases x) auto
qed

section \<open>Properties of prune\<close>

lemma pf_done:
  "\<not> i < min (length g) (length f) \<Longrightarrow>
   prune_from i S g f = prune_nohere (enumerate 0 (zip g f)) S"
  by (subst prune_from.simps) (simp del: min_less_iff_conj)

lemma pf_skip:
  "i < min (length g) (length f) \<Longrightarrow> f ! i \<noteq> HERE \<Longrightarrow>
   prune_from i S g f = prune_from (Suc i) S g f"
  by (subst prune_from.simps) (simp del: min_less_iff_conj)

lemma pf_here:
  "i < min (length g) (length f) \<Longrightarrow> f ! i = HERE \<Longrightarrow>
   prune_from i S g f =
     (case consistent i (g ! i) S of
        Inl e \<Rightarrow> Inl e
      | Inr cs \<Rightarrow>
          (case prune (map (\<lambda>w. cut w i) cs) (cut g i) (cut f i) of
             Inl e \<Rightarrow> Inl e
           | Inr pruned \<Rightarrow> Inr (map (\<lambda>w. take i w @ [g ! i] @ drop i w) pruned)))"
  unfolding prune_def by (subst prune_from.simps) (simp del: min_less_iff_conj)

lemma pf_nohere:
  "\<forall>k. i \<le> k \<and> k < min (length g) (length f) \<longrightarrow> f ! k \<noteq> HERE \<Longrightarrow>
   prune_from i S g f = prune_nohere (enumerate 0 (zip g f)) S"
proof (induction "min (length g) (length f) - i" arbitrary: i)
  case 0
  then have "\<not> i < min (length g) (length f)" by linarith
  then show ?case by (rule pf_done)
next
  case (Suc n)
  then have lt: "i < min (length g) (length f)" by linarith
  with Suc(3) have ne: "f ! i \<noteq> HERE" by simp
  have n: "n = min (length g) (length f) - Suc i" using Suc(2) by linarith
  have rest: "\<forall>k. Suc i \<le> k \<and> k < min (length g) (length f) \<longrightarrow> f ! k \<noteq> HERE"
    using Suc(3) by simp
  show ?case unfolding pf_skip[OF lt ne] by (rule Suc(1)[OF n rest])
qed

lemma pf_first:
  "j < min (length g) (length f) \<Longrightarrow> i \<le> j \<Longrightarrow>
   \<forall>k. i \<le> k \<and> k < j \<longrightarrow> f ! k \<noteq> HERE \<Longrightarrow>
   prune_from i S g f = prune_from j S g f"
proof (induction "j - i" arbitrary: i)
  case 0
  then show ?case by simp
next
  case (Suc n)
  then have ij: "i < j" by linarith
  then have lt: "i < min (length g) (length f)" using Suc(3) by linarith
  have ne: "f ! i \<noteq> HERE" using Suc(5) ij by simp
  have n: "n = j - Suc i" using Suc(2) by linarith
  have le: "Suc i \<le> j" using ij by simp
  have rest: "\<forall>k. Suc i \<le> k \<and> k < j \<longrightarrow> f ! k \<noteq> HERE" using Suc(5) by simp
  show ?case unfolding pf_skip[OF lt ne] by (rule Suc(1)[OF n Suc(3) le rest])
qed

lemma prune_nohere_filter:
  "\<forall>(i, l, r) \<in> set zs. r \<noteq> HERE \<and> (\<forall>w \<in> set S. i < length w) \<Longrightarrow>
   prune_nohere zs S = Inr (filter (nohere_ok zs) S)"
proof (induction zs arbitrary: S)
  case Nil
  then show ?case by simp
next
  case (Cons z zs)
  obtain i l r where z: "z = (i, l, r)" by (cases z)
  from Cons(2) z have r: "r \<noteq> HERE" and len: "\<forall>w \<in> set S. i < length w" by auto
  have tail: "\<And>T. set T \<subseteq> set S \<Longrightarrow>
      \<forall>(i, l, r) \<in> set zs. r \<noteq> HERE \<and> (\<forall>w \<in> set T. i < length w)"
    using Cons(2) by fastforce
  show ?case
  proof (cases "r = NOWHERE")
    case True
    have "prune_nohere (z # zs) S = prune_nohere zs (filter (\<lambda>w. l \<notin> set w) S)"
      using True r by (simp add: z symbols_distinct)
    also have "\<dots> = Inr (filter (nohere_ok zs) (filter (\<lambda>w. l \<notin> set w) S))"
      by (rule Cons(1)[OF tail]) simp
    also have "\<dots> = Inr (filter (nohere_ok (z # zs)) S)"
      unfolding filter_filter sum.inject
      by (rule filter_cong) (auto simp: z True symbols_distinct)
    finally show ?thesis .
  next
    case False
    note nn = False
    show ?thesis
    proof (cases "r = ELSEWHERE")
      case True
      have ef: "elsewhere_filter i l S = Inr (filter (\<lambda>w. l \<in> set w \<and> w ! i \<noteq> l) S)"
        using len by (simp add: elsewhere_filter_def)
      have "prune_nohere (z # zs) S = prune_nohere zs (filter (\<lambda>w. l \<in> set w \<and> w ! i \<noteq> l) S)"
        using True r nn by (simp add: z ef)
      also have "\<dots> = Inr (filter (nohere_ok zs) (filter (\<lambda>w. l \<in> set w \<and> w ! i \<noteq> l) S))"
        by (rule Cons(1)[OF tail]) simp
      also have "\<dots> = Inr (filter (nohere_ok (z # zs)) S)"
        unfolding filter_filter sum.inject
        by (rule filter_cong) (auto simp: z True symbols_distinct)
      finally show ?thesis .
    next
      case False
      have "prune_nohere (z # zs) S = prune_nohere zs S"
        using False r nn by (simp add: z)
      also have "\<dots> = Inr (filter (nohere_ok zs) S)"
        by (rule Cons(1)[OF tail]) simp
      also have "\<dots> = Inr (filter (nohere_ok (z # zs)) S)"
        unfolding sum.inject
        by (rule filter_cong) (auto simp: z False nn)
      finally show ?thesis .
    qed
  qed
qed

lemma nohere_ok_enumerate:
  "nohere_ok (enumerate n zs) w \<longleftrightarrow>
   (\<forall>k<length zs. (snd (zs ! k) = NOWHERE \<longrightarrow> fst (zs ! k) \<notin> set w) \<and>
      (snd (zs ! k) = ELSEWHERE \<longrightarrow> fst (zs ! k) \<in> set w \<and> w ! (n + k) \<noteq> fst (zs ! k)))"
proof (induction zs arbitrary: n)
  case Nil
  then show ?case by simp
next
  case (Cons z zs)
  obtain l r where z: "z = (l, r)" by (cases z)
  show ?case by (simp add: z Cons All_less_Suc2)
qed

lemma set_cut_subset: "set (cut xs i) \<subseteq> set xs"
  by (auto simp: cut_def dest: in_set_takeD in_set_dropD)

lemma nohere_equiv:
  assumes lw: "length w = length g" and lf: "length f = length g"
    and nh: "HERE \<notin> set f" and sym: "set f \<subseteq> {HERE, ELSEWHERE, NOWHERE}"
  shows "nohere_ok (enumerate 0 (zip g f)) w \<longleftrightarrow> give_feedback w g = f"
proof -
  let ?ok = "\<forall>k<length g. (f ! k = NOWHERE \<longrightarrow> g ! k \<notin> set w) \<and>
      (f ! k = ELSEWHERE \<longrightarrow> g ! k \<in> set w \<and> w ! k \<noteq> g ! k)"
  have unfold: "nohere_ok (enumerate 0 (zip g f)) w \<longleftrightarrow> ?ok"
    unfolding nohere_ok_enumerate using lf by simp
  have fk: "f ! k = ELSEWHERE \<or> f ! k = NOWHERE" if "k < length g" for k
  proof -
    have "f ! k \<in> set f" using that lf by simp
    then show ?thesis using nh sym by auto
  qed
  have wk: "w ! k \<in> set w" if "k < length g" for k using that lw by simp
  have closed: "give_feedback w g ! k = (if g ! k \<in> set w then ELSEWHERE else NOWHERE)"
    if nm: "\<forall>j. j < min (length w) (length g) \<longrightarrow> g ! j \<noteq> w ! j" and k: "k < length g" for k
    using give_feedback_nth[of k w g] resid_nomatch[OF nm] nm k lw by (simp add: classify_def)
  show ?thesis
  proof
    assume "nohere_ok (enumerate 0 (zip g f)) w"
    then have ok: ?ok by (simp only: unfold)
    have nm: "\<forall>j. j < min (length w) (length g) \<longrightarrow> g ! j \<noteq> w ! j"
    proof (intro allI impI)
      fix j assume "j < min (length w) (length g)"
      then have j: "j < length g" by simp
      from fk[OF j] show "g ! j \<noteq> w ! j"
      proof
        assume "f ! j = ELSEWHERE"
        with ok j show ?thesis by auto
      next
        assume "f ! j = NOWHERE"
        with ok j have "g ! j \<notin> set w" by simp
        with wk[OF j] show ?thesis by auto
      qed
    qed
    show "give_feedback w g = f"
    proof (rule nth_equalityI)
      show "length (give_feedback w g) = length f" by (simp add: length_give_feedback lw lf)
    next
      fix k assume "k < length (give_feedback w g)"
      then have k: "k < length g" by (simp add: length_give_feedback lw)
      from fk[OF k] show "give_feedback w g ! k = f ! k"
        using closed[OF nm k] ok k by (auto simp: symbols_distinct)
    qed
  next
    assume eq: "give_feedback w g = f"
    have nm: "\<forall>j. j < min (length w) (length g) \<longrightarrow> g ! j \<noteq> w ! j"
    proof (intro allI impI)
      fix j assume "j < min (length w) (length g)"
      then have j: "j < length g" "j < length w" by simp_all
      have "f ! j \<in> set f" using j lf by simp
      with nh have "f ! j \<noteq> HERE" by auto
      then show "g ! j \<noteq> w ! j" using give_feedback_here_iff[OF j(2) j(1)] eq by simp
    qed
    have ?ok
    proof (intro allI impI)
      fix k assume k: "k < length g"
      have "f ! k = (if g ! k \<in> set w then ELSEWHERE else NOWHERE)"
        using closed[OF nm k] eq by simp
      moreover have "g ! k \<noteq> w ! k" using nm k lw by simp
      ultimately show "(f ! k = NOWHERE \<longrightarrow> g ! k \<notin> set w) \<and>
          (f ! k = ELSEWHERE \<longrightarrow> g ! k \<in> set w \<and> w ! k \<noteq> g ! k)"
        by (auto simp: symbols_distinct)
    qed
    then show "nohere_ok (enumerate 0 (zip g f)) w" by (simp only: unfold)
  qed
qed

lemma consistent_ok:
  "\<forall>w \<in> set S. i < length w \<Longrightarrow> consistent i l S = Inr (filter (\<lambda>w. w ! i = l) S)"
  by (simp add: consistent_def)

lemma first_here:
  assumes "HERE \<in> set f"
  obtains i where "i < length f" "f ! i = HERE" "\<forall>k. 0 \<le> k \<and> k < i \<longrightarrow> f ! k \<noteq> HERE"
proof -
  from assms have "\<exists>i. i < length f \<and> f ! i = HERE" by (simp add: in_set_conv_nth)
  then obtain i where i: "i < length f \<and> f ! i = HERE"
    and m: "\<forall>k<i. \<not> (k < length f \<and> f ! k = HERE)"
    using exists_least_iff[of "\<lambda>i. i < length f \<and> f ! i = HERE"] by blast
  have "\<forall>k. 0 \<le> k \<and> k < i \<longrightarrow> f ! k \<noteq> HERE"
  proof (intro allI impI)
    fix k assume "0 \<le> k \<and> k < i"
    then have "k < i" by simp
    with m i have "\<not> (k < length f \<and> f ! k = HERE)" "k < length f" by auto
    then show "f ! k \<noteq> HERE" by blast
  qed
  with i that show ?thesis by blast
qed

lemma prune_filter:
  assumes "\<forall>s \<in> set S. length s = length g" "length f = length g"
    "set f \<subseteq> {HERE, ELSEWHERE, NOWHERE}"
  shows "prune S g f = Inr (filter (\<lambda>s. give_feedback s g = f) S)"
  using assms
proof (induction "length g" arbitrary: S g f rule: less_induct)
  case less
  note lenS = less(2) and lf = less(3) and sym = less(4)
  show ?case
  proof (cases "HERE \<in> set f")
    case False
    have nh: "\<forall>k. 0 \<le> k \<and> k < min (length g) (length f) \<longrightarrow> f ! k \<noteq> HERE"
    proof (intro allI impI)
      fix k assume "0 \<le> k \<and> k < min (length g) (length f)"
      then have "f ! k \<in> set f" by simp
      with False show "f ! k \<noteq> HERE" by auto
    qed
    have pre: "\<forall>(i, l, r) \<in> set (enumerate 0 (zip g f)). r \<noteq> HERE \<and> (\<forall>w \<in> set S. i < length w)"
    proof (clarify, rule conjI)
      fix i l r assume m: "(i, l, r) \<in> set (enumerate 0 (zip g f))"
      then have i: "i < length g" and r: "r = f ! i"
        using lf by (auto simp: in_set_enumerate_eq)
      show "r \<noteq> HERE" using nh i r lf by simp
      show "\<forall>w \<in> set S. i < length w" using lenS i by simp
    qed
    have "prune S g f = prune_nohere (enumerate 0 (zip g f)) S"
      unfolding prune_def by (rule pf_nohere[OF nh])
    also have "\<dots> = Inr (filter (nohere_ok (enumerate 0 (zip g f))) S)"
      by (rule prune_nohere_filter[OF pre])
    also have "filter (nohere_ok (enumerate 0 (zip g f))) S = filter (\<lambda>s. give_feedback s g = f) S"
      by (rule filter_cong[OF refl]) (use lenS lf False sym in \<open>simp add: nohere_equiv\<close>)
    finally show ?thesis .
  next
    case True
    then obtain i where i: "i < length f" and fi: "f ! i = HERE"
      and first: "\<forall>k. 0 \<le> k \<and> k < i \<longrightarrow> f ! k \<noteq> HERE"
      by (rule first_here)
    have ig: "i < length g" using i lf by simp
    have imin: "i < min (length g) (length f)" using i ig by simp
    have lenS': "\<forall>w \<in> set S. i < length w" using lenS ig by simp
    let ?cs = "filter (\<lambda>w. w ! i = g ! i) S"
    let ?Q = "\<lambda>s. give_feedback s (cut g i) = cut f i"
    have lg: "length (cut g i) < length g" using ig by (simp add: length_cut)
    have rec: "prune (map (\<lambda>w. cut w i) ?cs) (cut g i) (cut f i) =
               Inr (filter ?Q (map (\<lambda>w. cut w i) ?cs))"
    proof (rule less(1)[OF lg])
      show "\<forall>s \<in> set (map (\<lambda>w. cut w i) ?cs). length s = length (cut g i)"
        using lenS ig by (auto simp: length_cut)
      show "length (cut f i) = length (cut g i)" using i ig lf by (simp add: length_cut)
      show "set (cut f i) \<subseteq> {HERE, ELSEWHERE, NOWHERE}"
        using set_cut_subset[of f i] sym by blast
    qed
    have "prune S g f = prune_from i S g f"
      unfolding prune_def by (rule pf_first[OF imin le0 first])
    also have "\<dots> = Inr (map (\<lambda>w. take i w @ [g ! i] @ drop i w) (filter ?Q (map (\<lambda>w. cut w i) ?cs)))"
      by (simp only: pf_here[OF imin fi] consistent_ok[OF lenS'] rec sum.case)
    also have "map (\<lambda>w. take i w @ [g ! i] @ drop i w) (filter ?Q (map (\<lambda>w. cut w i) ?cs)) =
               filter (\<lambda>w. w ! i = g ! i \<and> ?Q (cut w i)) S"
      by (rule restore_plumbing[OF lenS'])
    also have "filter (\<lambda>w. w ! i = g ! i \<and> ?Q (cut w i)) S = filter (\<lambda>s. give_feedback s g = f) S"
      by (rule filter_cong[OF refl]) (use lenS lf ig fi in \<open>simp add: here_equiv\<close>)
    finally show ?thesis .
  qed
qed

lemma prune_is_filter:
  assumes "min (length g) (length f) \<le> L"
  shows "\<exists>P. \<forall>S. (\<forall>s \<in> set S. length s = L) \<longrightarrow> prune S g f = Inr (filter P S)"
  using assms
proof (induction "length g" arbitrary: g f L rule: less_induct)
  case less
  let ?n = "min (length g) (length f)"
  show ?case
  proof (cases "\<exists>i. i < ?n \<and> f ! i = HERE")
    case False
    then have nh: "\<forall>k. 0 \<le> k \<and> k < ?n \<longrightarrow> f ! k \<noteq> HERE" by blast
    have "prune S g f = Inr (filter (nohere_ok (enumerate 0 (zip g f))) S)"
      if lenS: "\<forall>s \<in> set S. length s = L" for S
    proof -
      have pre: "\<forall>(i, l, r) \<in> set (enumerate 0 (zip g f)). r \<noteq> HERE \<and> (\<forall>w \<in> set S. i < length w)"
      proof (clarify, rule conjI)
        fix i l r assume m: "(i, l, r) \<in> set (enumerate 0 (zip g f))"
        then have i: "i < ?n" and r: "r = f ! i"
          by (auto simp: in_set_enumerate_eq)
        show "r \<noteq> HERE" using nh i r by simp
        have "i < L" using i less(2) by linarith
        then show "\<forall>w \<in> set S. i < length w" using lenS by simp
      qed
      have "prune S g f = prune_nohere (enumerate 0 (zip g f)) S"
        unfolding prune_def by (rule pf_nohere[OF nh])
      then show ?thesis by (simp only: prune_nohere_filter[OF pre])
    qed
    then show ?thesis by blast
  next
    case True
    then obtain i where i: "i < ?n \<and> f ! i = HERE"
      and m: "\<forall>k<i. \<not> (k < ?n \<and> f ! k = HERE)"
      using exists_least_iff[of "\<lambda>i. i < ?n \<and> f ! i = HERE"] by blast
    from i have imin: "i < ?n" and fi: "f ! i = HERE" by simp_all
    have first: "\<forall>k. 0 \<le> k \<and> k < i \<longrightarrow> f ! k \<noteq> HERE"
    proof (intro allI impI)
      fix k assume "0 \<le> k \<and> k < i"
      then have "k < i" by simp
      with m imin have "\<not> (k < ?n \<and> f ! k = HERE)" "k < ?n" by auto
      then show "f ! k \<noteq> HERE" by blast
    qed
    have ig: "i < length g" and "i < length f" using imin by simp_all
    have iL: "i < L" using imin less(2) by linarith
    have lg: "length (cut g i) < length g" using ig by (simp add: length_cut)
    have "min (length (cut g i)) (length (cut f i)) \<le> L - 1"
      using \<open>i < length g\<close> \<open>i < length f\<close> less(2) by (simp add: length_cut)
    from less(1)[OF lg this] obtain P where
      P: "\<And>T. \<forall>s \<in> set T. length s = L - 1 \<Longrightarrow> prune T (cut g i) (cut f i) = Inr (filter P T)"
      by blast
    have "prune S g f = Inr (filter (\<lambda>w. w ! i = g ! i \<and> P (cut w i)) S)"
      if lenS: "\<forall>s \<in> set S. length s = L" for S
    proof -
      have lenS': "\<forall>w \<in> set S. i < length w" using lenS iL by simp
      let ?cs = "filter (\<lambda>w. w ! i = g ! i) S"
      have rec: "prune (map (\<lambda>w. cut w i) ?cs) (cut g i) (cut f i) =
                 Inr (filter P (map (\<lambda>w. cut w i) ?cs))"
        by (rule P) (use lenS iL in \<open>auto simp: length_cut\<close>)
      have "prune S g f = prune_from i S g f"
        unfolding prune_def by (rule pf_first[OF imin le0 first])
      also have "\<dots> = Inr (map (\<lambda>w. take i w @ [g ! i] @ drop i w) (filter P (map (\<lambda>w. cut w i) ?cs)))"
        by (simp only: pf_here[OF imin fi] consistent_ok[OF lenS'] rec sum.case)
      also have "map (\<lambda>w. take i w @ [g ! i] @ drop i w) (filter P (map (\<lambda>w. cut w i) ?cs)) =
                 filter (\<lambda>w. w ! i = g ! i \<and> P (cut w i)) S"
        by (rule restore_plumbing[OF lenS'])
      finally show ?thesis .
    qed
    then show ?thesis by blast
  qed
qed

lemma prune_total:
  assumes "\<forall>s \<in> set S. length s = L" "min (length g) (length f) \<le> L"
  shows "\<exists>R. prune S g f = Inr R"
  using prune_is_filter[OF assms(2)] assms(1) by blast

lemma prune_twice:
  assumes "\<forall>s \<in> set S. length s = L" "min (length g) (length f) \<le> L"
  shows "\<exists>R. prune S g f = Inr R \<and> prune R g f = Inr R"
proof -
  from prune_is_filter[OF assms(2)] obtain P where
    P: "\<And>T. \<forall>s \<in> set T. length s = L \<Longrightarrow> prune T g f = Inr (filter P T)" by blast
  have 1: "prune S g f = Inr (filter P S)" by (rule P[OF assms(1)])
  have "prune (filter P S) g f = Inr (filter P (filter P S))"
    by (rule P) (use assms(1) in simp)
  then have 2: "prune (filter P S) g f = Inr (filter P S)" by simp
  from 1 2 show ?thesis by blast
qed

section \<open>Properties of the selector loops\<close>

lemma score_naive_mono: "score_naive words g s ws = Inr t \<Longrightarrow> s \<le> t"
proof (induction ws arbitrary: s)
  case Nil
  then show ?case by simp
next
  case (Cons w ws)
  then show ?case by (fastforce split: sum.splits)
qed

lemma score_loop_refines:
  "score_naive words g s ws = Inr t \<Longrightarrow>
   \<exists>t'. score_loop words g m s ws = Inr t' \<and> (t' = t \<or> (m < t' \<and> m < t))"
proof (induction ws arbitrary: s)
  case Nil
  then show ?case by simp
next
  case (Cons w ws)
  from Cons(2) obtain pruned where p: "prune words g (give_feedback w g) = Inr pruned"
    and n: "score_naive words g (s + length pruned) ws = Inr t"
    by (auto split: sum.splits)
  show ?case
  proof (cases "m < s + length pruned")
    case True
    have "s + length pruned \<le> t" using score_naive_mono[OF n] .
    with True show ?thesis using p by (simp add: Let_def)
  next
    case False
    from Cons(1)[OF n] obtain t' where
      "score_loop words g m (s + length pruned) ws = Inr t'" "t' = t \<or> (m < t' \<and> m < t)"
      by blast
    with False show ?thesis using p by (simp add: Let_def)
  qed
qed

lemma guess_loop_refines:
  "guess_loop_naive words m a gs = Inr r \<Longrightarrow> guess_loop words m a gs = Inr r"
proof (induction gs arbitrary: m a)
  case Nil
  then show ?case by simp
next
  case (Cons g gs)
  from Cons(2) obtain t where t: "score_naive words g 0 words = Inr t"
    and rest: "(if t < m then guess_loop_naive words t (Some g) gs
                else guess_loop_naive words m a gs) = Inr r"
    by (auto split: sum.splits)
  from score_loop_refines[OF t, of m] obtain t' where
    t': "score_loop words g m 0 words = Inr t'" and rel: "t' = t \<or> (m < t' \<and> m < t)"
    by blast
  show ?case
  proof (cases "t < m")
    case True
    with rel have "t' = t" by auto
    with True rest t' Cons(1)[of t "Some g"] show ?thesis by simp
  next
    case False
    with rel have "\<not> t' < m" by auto
    with False rest t' Cons(1)[of m a] show ?thesis by simp
  qed
qed

lemma guess_greedy_refines:
  "guess_greedy_naive words guesses = Inr r \<Longrightarrow> guess_greedy words guesses = Inr r"
proof -
  assume a: "guess_greedy_naive words guesses = Inr r"
  then obtain q where q: "guess_loop_naive words (length words * length words) None guesses = Inr q"
    by (auto simp: guess_greedy_naive_def Let_def split: sum.splits)
  from guess_loop_refines[OF q] a q show ?thesis
    by (simp add: guess_greedy_naive_def guess_greedy_def Let_def)
qed

lemma prune_feedback_ok:
  assumes "\<forall>s \<in> set words. length s = L" "length g = L" "w \<in> set words"
  shows "prune words g (give_feedback w g) =
         Inr (filter (\<lambda>s. give_feedback s g = give_feedback w g) words)"
  using assms by (intro prune_filter) (simp_all add: length_give_feedback set_give_feedback)

lemma score_naive_total:
  assumes "\<forall>s \<in> set words. length s = L" "set ws \<subseteq> set words"
  shows "\<exists>t. score_naive words g s ws = Inr t"
  using assms(2)
proof (induction ws arbitrary: s)
  case Nil
  then show ?case by simp
next
  case (Cons w ws)
  then have w: "w \<in> set words" and ws: "set ws \<subseteq> set words" by auto
  have "min (length g) (length (give_feedback w g)) \<le> L"
    using assms(1) w by (simp add: length_give_feedback)
  from prune_total[OF assms(1) this] obtain R where "prune words g (give_feedback w g) = Inr R"
    by blast
  then show ?case using Cons(1)[OF ws] by simp
qed

lemma guess_loop_naive_total:
  assumes "\<forall>s \<in> set words. length s = L"
  shows "\<exists>r. guess_loop_naive words m a gs = Inr r"
proof (induction gs arbitrary: m a)
  case Nil
  then show ?case by simp
next
  case (Cons g gs)
  from score_naive_total[OF assms subset_refl, of g 0] obtain t where
    t: "score_naive words g 0 words = Inr t" by blast
  show ?case using t Cons[of t "Some g"] Cons[of m a] by simp
qed

lemma score_naive_sum:
  assumes "\<forall>s \<in> set words. length s = L" "length g = L" "set ws \<subseteq> set words"
  shows "score_naive words g s ws =
         Inr (s + sum_list (map (\<lambda>w. length (filter (\<lambda>w'. give_feedback w' g = give_feedback w g) words)) ws))"
  using assms(3)
proof (induction ws arbitrary: s)
  case Nil
  then show ?case by simp
next
  case (Cons w ws)
  then have w: "w \<in> set words" and ws: "set ws \<subseteq> set words" by auto
  show ?case using prune_feedback_ok[OF assms(1,2) w] Cons(1)[OF ws] by (simp add: add.assoc)
qed

lemma score_naive_score:
  assumes "\<forall>s \<in> set words. length s = L" "length g = L"
  shows "score_naive words g 0 words = Inr (score words g)"
  using score_naive_sum[OF assms subset_refl, of 0] by (simp add: score_def)

lemma guess_loop_naive_argmin:
  assumes "\<forall>g \<in> set gs. score_naive words g 0 words = Inr (sc g)"
  shows "(guess_loop_naive words m a gs = Inr (m, a) \<and> (\<forall>g \<in> set gs. m \<le> sc g)) \<or>
         (\<exists>pre g post. gs = pre @ g # post \<and>
            guess_loop_naive words m a gs = Inr (sc g, Some g) \<and> sc g < m \<and>
            (\<forall>x \<in> set pre. sc g < sc x) \<and> (\<forall>x \<in> set post. sc g \<le> sc x))"
  using assms
proof (induction gs arbitrary: m a)
  case Nil
  then show ?case by simp
next
  case (Cons g0 gs)
  then have s0: "score_naive words g0 0 words = Inr (sc g0)"
    and rest: "\<forall>g \<in> set gs. score_naive words g 0 words = Inr (sc g)" by auto
  show ?case
  proof (cases "sc g0 < m")
    case True
    then have step: "guess_loop_naive words m a (g0 # gs) = guess_loop_naive words (sc g0) (Some g0) gs"
      using s0 by simp
    from Cons.IH[OF rest, of "sc g0" "Some g0"] show ?thesis
    proof
      assume "guess_loop_naive words (sc g0) (Some g0) gs = Inr (sc g0, Some g0) \<and>
              (\<forall>g \<in> set gs. sc g0 \<le> sc g)"
      then have "g0 # gs = [] @ g0 # gs \<and>
            guess_loop_naive words m a (g0 # gs) = Inr (sc g0, Some g0) \<and> sc g0 < m \<and>
            (\<forall>x \<in> set []. sc g0 < sc x) \<and> (\<forall>x \<in> set gs. sc g0 \<le> sc x)"
        using step True by simp
      then show ?thesis by blast
    next
      assume "\<exists>pre g post. gs = pre @ g # post \<and>
            guess_loop_naive words (sc g0) (Some g0) gs = Inr (sc g, Some g) \<and> sc g < sc g0 \<and>
            (\<forall>x \<in> set pre. sc g < sc x) \<and> (\<forall>x \<in> set post. sc g \<le> sc x)"
      then obtain pre g post where d: "gs = pre @ g # post"
        and r: "guess_loop_naive words (sc g0) (Some g0) gs = Inr (sc g, Some g)"
        and lt: "sc g < sc g0" and p1: "\<forall>x \<in> set pre. sc g < sc x"
        and p2: "\<forall>x \<in> set post. sc g \<le> sc x" by blast
      have "g0 # gs = (g0 # pre) @ g # post \<and>
            guess_loop_naive words m a (g0 # gs) = Inr (sc g, Some g) \<and> sc g < m \<and>
            (\<forall>x \<in> set (g0 # pre). sc g < sc x) \<and> (\<forall>x \<in> set post. sc g \<le> sc x)"
        using d r lt p1 p2 step True by simp
      then show ?thesis by blast
    qed
  next
    case False
    then have step: "guess_loop_naive words m a (g0 # gs) = guess_loop_naive words m a gs"
      using s0 by simp
    from Cons.IH[OF rest, of m a] show ?thesis
    proof
      assume "guess_loop_naive words m a gs = Inr (m, a) \<and> (\<forall>g \<in> set gs. m \<le> sc g)"
      then show ?thesis using step False by simp
    next
      assume "\<exists>pre g post. gs = pre @ g # post \<and>
            guess_loop_naive words m a gs = Inr (sc g, Some g) \<and> sc g < m \<and>
            (\<forall>x \<in> set pre. sc g < sc x) \<and> (\<forall>x \<in> set post. sc g \<le> sc x)"
      then obtain pre g post where d: "gs = pre @ g # post"
        and r: "guess_loop_naive words m a gs = Inr (sc g, Some g)"
        and lt: "sc g < m" and p1: "\<forall>x \<in> set pre. sc g < sc x"
        and p2: "\<forall>x \<in> set post. sc g \<le> sc x" by blast
      have "g0 # gs = (g0 # pre) @ g # post \<and>
            guess_loop_naive words m a (g0 # gs) = Inr (sc g, Some g) \<and> sc g < m \<and>
            (\<forall>x \<in> set (g0 # pre). sc g < sc x) \<and> (\<forall>x \<in> set post. sc g \<le> sc x)"
        using d r lt p1 p2 step False by simp
      then show ?thesis by blast
    qed
  qed
qed

lemma guess_greedy_selection:
  assumes ne: "words \<noteq> []" and lw: "\<forall>w \<in> set words. length w = L"
    and lg: "\<forall>g \<in> set guesses. length g = L"
  shows "(guess_greedy words guesses = Inr (None, length words * length words) \<and>
          (\<forall>g \<in> set guesses. length words * length words \<le> score words g)) \<or>
         (\<exists>pre g post. guesses = pre @ g # post \<and>
            guess_greedy words guesses = Inr (Some g, score words g) \<and>
            score words g < length words * length words \<and>
            (\<forall>x \<in> set pre. score words g < score words x) \<and>
            (\<forall>x \<in> set post. score words g \<le> score words x))"
proof -
  let ?N2 = "length words * length words"
  have sc: "\<forall>g \<in> set guesses. score_naive words g 0 words = Inr (score words g)"
    using score_naive_score[OF lw] lg by simp
  have n0: "length words \<noteq> 0" using ne by simp
  have lift: "guess_greedy words guesses = Inr (b, v)"
    if "guess_loop_naive words ?N2 None guesses = Inr (v, b)" for v b
  proof -
    have "guess_greedy_naive words guesses = Inr (b, v)"
      using that n0 by (simp add: guess_greedy_naive_def Let_def)
    then show ?thesis by (rule guess_greedy_refines)
  qed
  from guess_loop_naive_argmin[OF sc, of ?N2 None] show ?thesis
  proof
    assume "guess_loop_naive words ?N2 None guesses = Inr (?N2, None) \<and>
            (\<forall>g \<in> set guesses. ?N2 \<le> score words g)"
    then show ?thesis using lift by blast
  next
    assume "\<exists>pre g post. guesses = pre @ g # post \<and>
            guess_loop_naive words ?N2 None guesses = Inr (score words g, Some g) \<and>
            score words g < ?N2 \<and>
            (\<forall>x \<in> set pre. score words g < score words x) \<and>
            (\<forall>x \<in> set post. score words g \<le> score words x)"
    then obtain pre g post where d: "guesses = pre @ g # post"
      and r: "guess_loop_naive words ?N2 None guesses = Inr (score words g, Some g)"
      and rest: "score words g < ?N2" "\<forall>x \<in> set pre. score words g < score words x"
        "\<forall>x \<in> set post. score words g \<le> score words x" by blast
    from lift[OF r] d rest show ?thesis by blast
  qed
qed

section \<open>Properties of the coverage heuristic\<close>

lemma count_list_remdups: "count_list (remdups w) l = (if l \<in> set w then 1 else 0)"
  by (induction w) auto

lemma letter_counts_eq: "letter_counts words l = words_containing words l"
  unfolding letter_counts_def words_containing_def
  by (induction words) (simp_all add: count_list_remdups)

lemma coverage_eq: "coverage words word = coverage_spec words word"
proof -
  have "sum_list (map (words_containing words) (remdups word)) =
        sum (words_containing words) (set (remdups word))"
    by (rule sum.distinct_set_conv_list[symmetric]) simp
  then show ?thesis
    unfolding coverage_def coverage_spec_def by (simp add: letter_counts_eq[abs_def])
qed

lemma max_loop_invariant:
  assumes "seen = pre @ best # post"
    and "\<forall>x \<in> set pre. key x < key best" and "\<forall>x \<in> set post. key x \<le> key best"
  shows "\<exists>pre' post'. seen @ xs = pre' @ max_loop key best xs # post' \<and>
           (\<forall>x \<in> set pre'. key x < key (max_loop key best xs)) \<and>
           (\<forall>x \<in> set post'. key x \<le> key (max_loop key best xs))"
  using assms
proof (induction xs arbitrary: seen pre best post)
  case Nil
  then show ?case by auto
next
  case (Cons x xs)
  show ?case
  proof (cases "key best < key x")
    case True
    have "\<exists>pre' post'. (seen @ [x]) @ xs = pre' @ max_loop key x xs # post' \<and>
           (\<forall>y \<in> set pre'. key y < key (max_loop key x xs)) \<and>
           (\<forall>y \<in> set post'. key y \<le> key (max_loop key x xs))"
    proof (rule Cons.IH[of "seen @ [x]" seen x "[]"])
      show "seen @ [x] = seen @ x # []" by simp
      show "\<forall>y \<in> set seen. key y < key x" using Cons.prems True by fastforce
      show "\<forall>y \<in> set []. key y \<le> key x" by simp
    qed
    with True show ?thesis by simp
  next
    case False
    have "\<exists>pre' post'. (seen @ [x]) @ xs = pre' @ max_loop key best xs # post' \<and>
           (\<forall>y \<in> set pre'. key y < key (max_loop key best xs)) \<and>
           (\<forall>y \<in> set post'. key y \<le> key (max_loop key best xs))"
    proof (rule Cons.IH[of "seen @ [x]" pre best "post @ [x]"])
      show "seen @ [x] = pre @ best # post @ [x]" using Cons.prems(1) by simp
      show "\<forall>y \<in> set pre. key y < key best" using Cons.prems(2) .
      show "\<forall>y \<in> set (post @ [x]). key y \<le> key best" using Cons.prems(3) False by auto
    qed
    with False show ?thesis by simp
  qed
qed

lemma max_key_first_max:
  assumes "xs \<noteq> []"
  shows "\<exists>r pre post. max_key key xs = Inr r \<and> xs = pre @ r # post \<and>
           (\<forall>x \<in> set pre. key x < key r) \<and> (\<forall>x \<in> set post. key x \<le> key r)"
proof -
  from assms obtain x rest where xs: "xs = x # rest" by (cases xs) auto
  from max_loop_invariant[of "[x]" "[]" x "[]" key rest]
  obtain pre post where d: "[x] @ rest = pre @ max_loop key x rest # post"
    and lt: "\<forall>y \<in> set pre. key y < key (max_loop key x rest)"
    and le: "\<forall>y \<in> set post. key y \<le> key (max_loop key x rest)" by auto
  have mk: "max_key key xs = Inr (max_loop key x rest)" by (simp add: xs max_key_def)
  have d': "xs = pre @ max_loop key x rest # post" using d xs by simp
  from mk d' lt le show ?thesis by blast
qed

section \<open>The documented duplicate-letter example\<close>

text \<open>
  C5: scoring the guess \<open>EE\<close> against the word \<open>EX\<close> gives \<open>[HERE, NOWHERE]\<close>: the exact
  match at the first position removes the only E of the word before the second E of the
  guess is classified.
\<close>

theorem give_feedback_EX_EE:
  "give_feedback ''EX'' ''EE'' = [HERE, NOWHERE]"
  by code_simp

section \<open>Well-formedness of feedback\<close>

text \<open>
  C8: for a word and a guess of the same length \<open>L\<close>, the feedback has length \<open>L\<close> and
  every element of it is one of the three symbols \<open>HERE\<close>, \<open>ELSEWHERE\<close>, \<open>NOWHERE\<close>.
\<close>

theorem give_feedback_well_formed:
  "length w = L \<Longrightarrow> length g = L \<Longrightarrow>
   length (give_feedback w g) = L \<and>
   (\<forall>x \<in> set (give_feedback w g). x = HERE \<or> x = ELSEWHERE \<or> x = NOWHERE)"
  using set_give_feedback[of w g] by (auto simp: length_give_feedback)

theorem give_feedback_well_formed_witness:
  "length ''EX'' = 2 \<and> length ''EE'' = 2 \<and>
   length (give_feedback ''EX'' ''EE'') = 2 \<and>
   set (give_feedback ''EX'' ''EE'') \<subseteq> {HERE, ELSEWHERE, NOWHERE}"
  using give_feedback_well_formed[of "''EX''" 2 "''EE''"] by auto

section \<open>Unequal lengths\<close>

text \<open>
  C10, as the code has it: for a word and a guess of any lengths the call returns: the
  recursion terminates, and no operation of the function can raise on strings (every
  index that is read lies below both lengths, and slices never raise). The result is a
  sequence of the three symbols whose length is that of the shorter input. Positions are
  paired up to the shorter input only; a position is \<open>HERE\<close> exactly when its two letters
  agree, and the letters of the guess beyond the end of the word play no part. The letters
  of the word beyond the end of the guess do play a part: a guess letter that is not an
  exact match is \<open>ELSEWHERE\<close> exactly when it occurs among the letters of the word that no
  exact match consumes (\<open>resid\<close>), and those include the tail of the word.
\<close>

theorem give_feedback_unequal_lengths:
  "give_feedback_from_dom (0, [], word, guess) \<and>
   length (give_feedback word guess) = min (length word) (length guess) \<and>
   set (give_feedback word guess) \<subseteq> {HERE, ELSEWHERE, NOWHERE} \<and>
   (\<forall>i < min (length word) (length guess).
      give_feedback word guess ! i =
        (if guess ! i = word ! i then HERE
         else if guess ! i \<in> set (resid word guess) then ELSEWHERE
         else NOWHERE)) \<and>
   give_feedback word (take (length word) guess) = give_feedback word guess"
proof (intro conjI allI impI)
  show "give_feedback_from_dom (0, [], word, guess)" by (rule give_feedback_from_total)
  show "length (give_feedback word guess) = min (length word) (length guess)"
    by (rule length_give_feedback)
  show "set (give_feedback word guess) \<subseteq> {HERE, ELSEWHERE, NOWHERE}"
    by (rule set_give_feedback)
  show "give_feedback word (take (length word) guess) = give_feedback word guess"
    by (rule give_feedback_take_guess)
next
  fix i assume "i < min (length word) (length guess)"
  then show "give_feedback word guess ! i =
        (if guess ! i = word ! i then HERE
         else if guess ! i \<in> set (resid word guess) then ELSEWHERE
         else NOWHERE)"
    by (simp add: give_feedback_nth classify_def)
qed

theorem give_feedback_unequal_lengths_witness:
  "give_feedback_from_dom (0, [], ''xab'', ''ab'') \<and>
   length (give_feedback ''xab'' ''ab'') = min (length ''xab'') (length ''ab'') \<and>
   set (give_feedback ''xab'' ''ab'') \<subseteq> {HERE, ELSEWHERE, NOWHERE} \<and>
   (1::nat) < min (length ''xab'') (length ''ab'') \<and>
   give_feedback ''xab'' ''ab'' ! 1 =
     (if ''ab'' ! 1 = ''xab'' ! 1 then HERE
      else if ''ab'' ! 1 \<in> set (resid ''xab'' ''ab'') then ELSEWHERE
      else NOWHERE) \<and>
   give_feedback ''xab'' (take (length ''xab'') ''ab'') = give_feedback ''xab'' ''ab''"
proof -
  have h: "(1::nat) < min (length ''xab'') (length ''ab'')" by simp
  from give_feedback_unequal_lengths[of "''xab''" "''ab''"] h show ?thesis by blast
qed

text \<open>
  The comparison is therefore not cut to the shorter of the two inputs: the word \<open>xa\<close>
  scored against the guess \<open>a\<close> gives \<open>ELSEWHERE\<close>, because \<open>gl in word\<close> sees the second
  letter of the word, while the two inputs cut to their common length give \<open>NOWHERE\<close>.
\<close>

theorem give_feedback_word_tail_counts:
  "give_feedback ''xa'' ''a'' = [ELSEWHERE] \<and>
   give_feedback (take (min (length ''xa'') (length ''a'')) ''xa'')
                 (take (min (length ''xa'') (length ''a'')) ''a'') = [NOWHERE]"
  by code_simp

section \<open>Correctness of prune with respect to the evaluator\<close>

text \<open>
  C1: for words \<open>S\<close>, a guess \<open>g\<close> and a feedback sequence \<open>f\<close> (a sequence of the three
  symbols), all of length \<open>L\<close>, \<open>prune S g f\<close> returns normally, and what it returns is
  \<open>S\<close> restricted to the words \<open>s\<close> with \<open>give_feedback s g = f\<close>, in the order of \<open>S\<close>.
  Duplicate letters are covered: nothing is assumed about \<open>S\<close>, \<open>g\<close> and \<open>f\<close> beyond
  their lengths.
\<close>

theorem prune_exactly_consistent:
  assumes "\<forall>s \<in> set S. length s = L" and "length g = L" and "length f = L"
    and "set f \<subseteq> {HERE, ELSEWHERE, NOWHERE}"
  shows "prune S g f = Inr (filter (\<lambda>s. give_feedback s g = f) S)"
  using assms by (intro prune_filter) simp_all

theorem prune_exactly_consistent_witness:
  "list_all (\<lambda>s. length s = 2) [''EX'', ''EE'', ''XE''] \<and> length ''EE'' = 2 \<and>
   length [HERE, NOWHERE] = 2 \<and> set [HERE, NOWHERE] \<subseteq> {HERE, ELSEWHERE, NOWHERE} \<and>
   prune [''EX'', ''EE'', ''XE''] ''EE'' [HERE, NOWHERE] =
     Inr (filter (\<lambda>s. give_feedback s ''EE'' = [HERE, NOWHERE]) [''EX'', ''EE'', ''XE''])"
proof -
  have h1: "\<forall>s \<in> set [''EX'', ''EE'', ''XE'']. length s = 2" by simp
  have h2: "length ''EE'' = 2" by simp
  have h3: "length [HERE, NOWHERE] = 2" by simp
  have h4: "set [HERE, NOWHERE] \<subseteq> {HERE, ELSEWHERE, NOWHERE}" by simp
  show ?thesis using prune_exactly_consistent[OF h1 h2 h3 h4] by simp
qed

section \<open>Idempotence of prune\<close>

text \<open>
  C7: for words \<open>S\<close>, a guess \<open>g\<close> and a feedback sequence \<open>f\<close>, all of length \<open>L\<close>,
  pruning returns some list \<open>R\<close>, and pruning \<open>R\<close> again with the same guess and feedback
  returns \<open>R\<close> unchanged. Nothing is asked of the symbols of \<open>f\<close>.
\<close>

theorem prune_idempotent:
  assumes "\<forall>s \<in> set S. length s = L" and "length g = L" and "length f = L"
  shows "\<exists>R. prune S g f = Inr R \<and> prune R g f = Inr R"
proof (rule prune_twice)
  show "\<forall>s \<in> set S. length s = L" by (rule assms(1))
  show "min (length g) (length f) \<le> L" using assms(2,3) by simp
qed

theorem prune_idempotent_witness:
  "list_all (\<lambda>s. length s = 2) [''EX'', ''EE'', ''XE''] \<and> length ''EE'' = 2 \<and>
   length [HERE, NOWHERE] = 2 \<and>
   (\<exists>R. prune [''EX'', ''EE'', ''XE''] ''EE'' [HERE, NOWHERE] = Inr R \<and>
        prune R ''EE'' [HERE, NOWHERE] = Inr R)"
proof -
  have h1: "\<forall>s \<in> set [''EX'', ''EE'', ''XE'']. length s = 2" by simp
  have h2: "length ''EE'' = 2" by simp
  have h3: "length [HERE, NOWHERE] = 2" by simp
  show ?thesis using prune_idempotent[OF h1 h2 h3] by simp
qed

section \<open>Termination of the recursions\<close>

text \<open>
  C9: the recursions of \<open>give_feedback\<close> and \<open>prune\<close> terminate on every input. Both
  models are total functions whose termination was proved at their definition; stated
  explicitly, every argument tuple lies in the domain of the recursion (the accessible
  part of its call relation). The recursive call is made on \<open>cut s i\<close> for an index \<open>i\<close>
  inside \<open>s\<close>, which is exactly one element shorter than \<open>s\<close>.
\<close>

theorem recursion_terminates:
  "give_feedback_from_dom (i, out, word, guess) \<and>
   prune_from_dom (j, words, guess', feedback) \<and>
   (k < length s \<longrightarrow> length (cut s k) = length s - 1 \<and> length (cut s k) < length s)"
proof -
  have "All give_feedback_from_dom"
    by (relation "measures [\<lambda>(i, out, word, guess). length word,
                            \<lambda>(i, out, word, guess). min (length word) (length guess) - i]")
       (auto simp: cut_def)
  moreover have "All prune_from_dom"
    by (relation "measures [\<lambda>(i, words, guess, feedback). length guess,
                            \<lambda>(i, words, guess, feedback). min (length guess) (length feedback) - i]")
       (auto simp: cut_def)
  ultimately show ?thesis by (auto simp: length_cut)
qed

theorem recursion_terminates_witness:
  "give_feedback_from_dom (0, [], ''EX'', ''EE'') \<and>
   prune_from_dom (0, [''EX'', ''EE''], ''EE'', [HERE, NOWHERE]) \<and>
   (0::nat) < length ''EX'' \<and> length (cut ''EX'' 0) = length ''EX'' - 1 \<and>
   length (cut ''EX'' 0) < length ''EX''"
  using recursion_terminates[of 0 "[]" "''EX''" "''EE''" 0 "[''EX'', ''EE'']" "''EE''"
      "[HERE, NOWHERE]" 0 "''EX''"]
  by simp

section \<open>The early exit of the selector\<close>

text \<open>
  C2: for a non-empty collection of words of one length \<open>L\<close> and any pool of guesses, the
  selector with the early exit and the selector that always sums over every word both
  return normally, and they return the same guess and the same minimal score.
\<close>

theorem early_exit_preserves_result:
  assumes "words \<noteq> []" and "\<forall>w \<in> set words. length w = L"
  shows "\<exists>r. guess_greedy_naive words guesses = Inr r \<and> guess_greedy words guesses = Inr r"
proof -
  from guess_loop_naive_total[OF assms(2)] obtain q where
    "guess_loop_naive words (length words * length words) None guesses = Inr q" by blast
  then have "\<exists>r. guess_greedy_naive words guesses = Inr r"
    using assms(1) by (cases q) (simp add: guess_greedy_naive_def Let_def)
  then show ?thesis using guess_greedy_refines by blast
qed

theorem early_exit_preserves_result_witness:
  "[''ab'', ''cd'', ''ad''] \<noteq> [] \<and> list_all (\<lambda>w. length w = 2) [''ab'', ''cd'', ''ad''] \<and>
   (\<exists>r. guess_greedy_naive [''ab'', ''cd'', ''ad''] [''ab'', ''xx''] = Inr r \<and>
        guess_greedy [''ab'', ''cd'', ''ad''] [''ab'', ''xx''] = Inr r)"
proof -
  have h1: "[''ab'', ''cd'', ''ad''] \<noteq> []" by simp
  have h2: "\<forall>w \<in> set [''ab'', ''cd'', ''ad'']. length w = 2" by simp
  show ?thesis using early_exit_preserves_result[OF h1 h2, of "[''ab'', ''xx'']"] by simp
qed

section \<open>An empty pool of guesses\<close>

text \<open>
  C3, as the code has it: the selector does not check its pool. With an empty pool and a
  non-empty collection of \<open>N\<close> words the outer loop runs no iteration and the call returns
  normally, with no guess (\<open>None\<close>) and the initial bound \<open>N * N\<close> as minimal score.
\<close>

theorem guess_greedy_empty_pool:
  "words \<noteq> [] \<Longrightarrow> guess_greedy words [] = Inr (None, length words * length words)"
  by (simp add: guess_greedy_def Let_def)

theorem guess_greedy_empty_pool_witness:
  "[''ab''] \<noteq> [] \<and> guess_greedy [''ab''] [] = Inr (None, length [''ab''] * length [''ab''])"
  using guess_greedy_empty_pool[of "[''ab'']"] by simp

text \<open>
  The claim that an empty pool is surfaced as a failure does not hold: the call below
  returns a value.
\<close>

theorem guess_greedy_empty_pool_returns:
  "guess_greedy [''ab'', ''cd''] [] = Inr (None, 4)"
  by code_simp

section \<open>Selection and ties\<close>

text \<open>
  C4: the selector is to return the earliest guess of minimal score. It does so whenever
  some guess scores below \<open>N * N\<close> (lemma \<open>guess_greedy_selection\<close>). The running minimum
  starts at \<open>N * N\<close>, a score a guess can reach, and is replaced on strict improvement
  only: when every guess of the pool scores \<open>N * N\<close>, two guesses tie at the minimal score
  and none of them is selected. The first call has two distinct guesses that tell nothing
  apart; the second is the call that \<open>loop\<close> makes when the word list holds a word twice.
\<close>

theorem guess_greedy_tie_at_bound:
  "score [''ab'', ''cd''] ''xx'' = 4 \<and> score [''ab'', ''cd''] ''yy'' = 4 \<and>
   guess_greedy [''ab'', ''cd''] [''xx'', ''yy''] = Inr (None, 4) \<and>
   score [''ab'', ''ab''] ''ab'' = 4 \<and>
   guess_greedy [''ab'', ''ab''] [''ab'', ''ab''] = Inr (None, 4)"
  by code_simp

section \<open>The coverage heuristic\<close>

text \<open>
  C6: for a non-empty collection the initial guess is a word \<open>g\<close> of the collection whose
  coverage (the sum, over the distinct letters of the word, of the number of words
  containing the letter) is maximal, and the first such word: every word before it has
  strictly smaller coverage, every word after it has at most the same.
\<close>

theorem initial_guess_max_coverage:
  assumes "words \<noteq> []"
  shows "\<exists>g pre post. initial_guess words = Inr g \<and> words = pre @ g # post \<and>
           (\<forall>x \<in> set pre. coverage_spec words x < coverage_spec words g) \<and>
           (\<forall>x \<in> set post. coverage_spec words x \<le> coverage_spec words g)"
  using max_key_first_max[OF assms, of "coverage words"]
  unfolding initial_guess_def coverage_eq[abs_def] .

theorem initial_guess_max_coverage_witness:
  "[''ab'', ''cd'', ''ad'', ''da''] \<noteq> [] \<and>
   (\<exists>g pre post. initial_guess [''ab'', ''cd'', ''ad'', ''da''] = Inr g \<and>
      [''ab'', ''cd'', ''ad'', ''da''] = pre @ g # post \<and>
      (\<forall>x \<in> set pre. coverage_spec [''ab'', ''cd'', ''ad'', ''da''] x
                        < coverage_spec [''ab'', ''cd'', ''ad'', ''da''] g) \<and>
      (\<forall>x \<in> set post. coverage_spec [''ab'', ''cd'', ''ad'', ''da''] x
                         \<le> coverage_spec [''ab'', ''cd'', ''ad'', ''da''] g))"
  using initial_guess_max_coverage[of "[''ab'', ''cd'', ''ad'', ''da'']"] by simp

end
